theory Spec2Isabelle
  imports Complex_Main "HOL-Library.Product_Lexorder" "HOL-Library.Multiset"
begin

section \<open>Numbers\<close>

text \<open>
  The program computes with Python numbers. The load, \<open>pmin\<close> and \<open>pmax\<close> are annotated
  \<open>int\<close> in the source and are integers here; prices, efficiency, the wind percentage,
  every allocated output \<open>p\<close> and the remaining load are Python floats in the source and
  exact rationals here. When load, \<open>pmin\<close> and \<open>pmax\<close> are integers, every output and
  every remaining load the algorithm computes is a whole number, on which the float
  operations of the source are exact.
\<close>

definition py_round :: "rat \<Rightarrow> int" where
  \<comment> \<open>Python 3 \<open>round(x)\<close> with one argument: nearest integer, ties to the even one.\<close>
  "py_round x =
     (let f = \<lfloor>x\<rfloor>; d = x - of_int f
      in if d < 1 / 2 then f
         else if 1 / 2 < d then f + 1
         else if even f then f else f + 1)"

definition round_tenth :: "rat \<Rightarrow> rat" where
  \<comment> \<open>\<open>round(x * 10) / 10\<close>\<close>
  "round_tenth x = of_int (py_round (x * 10)) / 10"

definition py_int :: "rat \<Rightarrow> int" where
  \<comment> \<open>Python \<open>int(x)\<close> of a float: truncation toward zero.\<close>
  "py_int x = (if 0 \<le> x then \<lfloor>x\<rfloor> else \<lceil>x\<rceil>)"

section \<open>Data\<close>

datatype error = ZeroDivisionError

record PowerPlant =
  name :: string
  type :: string
  efficiency :: rat
  pmin :: int
  pmax :: int
  cost_per_mwh :: rat
  available_power :: int

text \<open>The \<open>fuels\<close> object of a payload and one element of its \<open>powerplants\<close> list.\<close>

record Fuels =
  gas :: rat
  kerosine :: rat
  co2 :: rat
  wind :: rat

record PlantData =
  pd_name :: string
  pd_type :: string
  pd_efficiency :: rat
  pd_pmin :: int
  pd_pmax :: int

text \<open>A payload that has the three keys the endpoint checks for.\<close>

record Payload =
  load :: int
  fuels :: Fuels
  powerplants :: "PlantData list"

text \<open>One entry \<open>{"name": n, "p": x}\<close> of the production plan is the pair \<open>(n, x)\<close>.\<close>

type_synonym plan = "(string \<times> rat) list"

section \<open>Cost model\<close>

definition PowerPlant_init :: "string \<Rightarrow> string \<Rightarrow> rat \<Rightarrow> int \<Rightarrow> int \<Rightarrow> PowerPlant" where
  "PowerPlant_init n t e lo hi =
     \<lparr>name = n, type = t, efficiency = e, pmin = lo, pmax = hi,
      cost_per_mwh = 0, available_power = 0\<rparr>"

definition calculate_cost :: "PowerPlant \<Rightarrow> rat \<Rightarrow> rat \<Rightarrow> rat \<Rightarrow> rat \<Rightarrow> error + PowerPlant" where
  "calculate_cost self gas_price kerosine_price co2_price wind_percentage =
     (if type self = ''windturbine'' then
        Inr (self\<lparr>cost_per_mwh := 0,
                  available_power := py_int (of_int (pmax self) * wind_percentage / 100)\<rparr>)
      else if type self = ''gasfired'' then
        (if efficiency self = 0 then Inl ZeroDivisionError
         else
           let fuel_cost_per_mwh = gas_price / efficiency self;
               co2_cost_per_mwh = (3 / 10 * co2_price) / efficiency self
           in Inr (self\<lparr>cost_per_mwh := fuel_cost_per_mwh + co2_cost_per_mwh,
                        available_power := pmax self\<rparr>))
      else if type self = ''turbojet'' then
        (if efficiency self = 0 then Inl ZeroDivisionError
         else
           let fuel_cost_per_mwh = kerosine_price / efficiency self
           in Inr (self\<lparr>cost_per_mwh := fuel_cost_per_mwh,
                        available_power := pmax self\<rparr>))
      else Inr self)"

section \<open>Dispatch\<close>

subsection \<open>Wind pass\<close>

definition wind_step :: "nat \<times> PowerPlant \<Rightarrow> plan \<times> rat \<Rightarrow> plan \<times> rat" where
  \<comment> \<open>the body of the first \<open>for i, plant in enumerate(self.plants)\<close> loop\<close>
  "wind_step ip s =
     (case (ip, s) of ((i, plant), (production_plan, remaining_load)) \<Rightarrow>
        if type plant = ''windturbine'' \<and> 0 < remaining_load then
          let production = min (of_int (available_power plant)) remaining_load;
              production = round_tenth production
          in (production_plan[i := (fst (production_plan ! i), production)],
              remaining_load - production)
        else (production_plan, remaining_load))"

definition wind_pass :: "PowerPlant list \<Rightarrow> plan \<times> rat \<Rightarrow> plan \<times> rat" where
  "wind_pass plants s = fold wind_step (enumerate 0 plants) s"

subsection \<open>Greedy incremental dispatch\<close>

definition greedy_unit :: "PowerPlant list \<Rightarrow> nat \<Rightarrow> plan \<times> rat \<Rightarrow> (plan \<times> rat) option" where
  \<comment> \<open>The body of \<open>for i in plant_indices\<close> up to the assignment of \<open>made_progress\<close>:
      \<open>Some\<close> of the new plan and remaining load when an increment is applied,
      \<open>None\<close> when the unit is passed over.\<close>
  "greedy_unit plants i s =
     (case s of (production_plan, remaining_load) \<Rightarrow>
        let plant = plants ! i;
            current_production = snd (production_plan ! i)
        in if type plant = ''windturbine'' \<or> of_int (pmax plant) \<le> current_production then None
           else
             let min_increment =
                   (if current_production = 0 then max (of_int (pmin plant)) (1 / 10) else 1 / 10);
                 max_possible = min (of_int (pmax plant)) (remaining_load + current_production)
             in if min_increment \<le> max_possible then
                  let increment =
                        (if current_production = 0
                         then max (min remaining_load (of_int (pmax plant))) (of_int (pmin plant))
                         else min remaining_load (of_int (pmax plant) - current_production));
                      increment = round_tenth increment
                  in if 1 / 10 \<le> increment then
                       Some (production_plan[i := (fst (production_plan ! i),
                                                   round_tenth (current_production + increment))],
                             round_tenth (remaining_load - increment))
                     else None
                else None)"

fun greedy_for :: "PowerPlant list \<Rightarrow> nat list \<Rightarrow> plan \<times> rat \<times> bool \<Rightarrow> plan \<times> rat \<times> bool" where
  \<comment> \<open>one pass \<open>for i in plant_indices\<close>; the state carries \<open>made_progress\<close>\<close>
  "greedy_for plants [] s = s"
| "greedy_for plants (i # is) (production_plan, remaining_load, made_progress) =
     (case greedy_unit plants i (production_plan, remaining_load) of
        None \<Rightarrow> greedy_for plants is (production_plan, remaining_load, made_progress)
      | Some (production_plan', remaining_load') \<Rightarrow>
          if remaining_load' \<le> 1 / 10 then (production_plan', remaining_load', True)
          else greedy_for plants is (production_plan', remaining_load', True))"

definition greedy_pass :: "PowerPlant list \<Rightarrow> plan \<times> rat \<Rightarrow> plan \<times> rat \<times> bool" where
  "greedy_pass plants s = greedy_for plants [0..<length plants] (fst s, snd s, False)"

subsection \<open>The multi-pass loop\<close>

text \<open>
  The \<open>while remaining_load > 0.1\<close> loop runs passes until the load is met or a pass
  makes no progress. Every applied increment is at least 0.1 and lowers the remaining load
  by at least 0.05 after rounding, which is the termination argument below. Besides the
  plan and the remaining load, which are the program's variables, \<open>greedy_while\<close>
  reports two observations about the run: whether the loop was left through the
  \<open>if not made_progress\<close> branch (the branch that logs the warning), and how many
  passes were started.
\<close>

lemma py_round_lower: "x - 1 / 2 \<le> of_int (py_round x)"
  unfolding py_round_def Let_def by (auto; linarith)

lemma py_round_upper: "of_int (py_round x) \<le> x + 1 / 2"
  unfolding py_round_def Let_def by (auto; linarith)

lemma round_tenth_lower: "x - 1 / 20 \<le> round_tenth x"
  using py_round_lower [of "x * 10"] unfolding round_tenth_def by simp

lemma round_tenth_upper: "round_tenth x \<le> x + 1 / 20"
  using py_round_upper [of "x * 10"] unfolding round_tenth_def by simp

lemma greedy_unit_decreases:
  assumes "greedy_unit plants i (pl, r) = Some (pl', r')"
  shows "r' \<le> r - 1 / 20"
proof -
  from assms obtain inc where inc: "1 / 10 \<le> inc" and r': "r' = round_tenth (r - inc)"
    unfolding greedy_unit_def Let_def by (auto split: if_splits)
  from round_tenth_upper [of "r - inc"] inc r' show ?thesis by linarith
qed

lemma greedy_for_decreases:
  "greedy_for plants is (pl, r, mp) = (pl', r', mp') \<Longrightarrow>
     r' \<le> r \<and> (mp' \<longrightarrow> mp \<or> r' \<le> r - 1 / 20)"
proof (induction "is" arbitrary: pl r mp)
  case Nil
  then show ?case by simp
next
  case (Cons i "is")
  show ?case
  proof (cases "greedy_unit plants i (pl, r)")
    case None
    with Cons.prems have "greedy_for plants is (pl, r, mp) = (pl', r', mp')" by simp
    from Cons.IH [OF this] show ?thesis .
  next
    case (Some a)
    obtain pl1 r1 where a: "a = (pl1, r1)" by (cases a)
    from Some a have d: "r1 \<le> r - 1 / 20" using greedy_unit_decreases by blast
    show ?thesis
    proof (cases "r1 \<le> 1 / 10")
      case True
      with Cons.prems Some a d show ?thesis by auto
    next
      case False
      with Cons.prems Some a have "greedy_for plants is (pl1, r1, True) = (pl', r', mp')" by simp
      from Cons.IH [OF this] d show ?thesis by auto
    qed
  qed
qed

function greedy_while :: "PowerPlant list \<Rightarrow> plan \<times> rat \<Rightarrow> plan \<times> rat \<times> bool \<times> nat" where
  "greedy_while plants s =
     (if 1 / 10 < snd s then
        (case greedy_pass plants s of (production_plan, remaining_load, made_progress) \<Rightarrow>
           if \<not> made_progress then (production_plan, remaining_load, True, 1)
           else (case greedy_while plants (production_plan, remaining_load) of
                   (pl, r, stalled, passes) \<Rightarrow> (pl, r, stalled, Suc passes)))
      else (fst s, snd s, False, 0))"
  by pat_completeness auto
termination
proof (relation "measure (\<lambda>(plants, s). nat \<lceil>snd s * 20\<rceil>)")
  show "wf (measure (\<lambda>(plants, s). nat \<lceil>snd s * 20\<rceil>))" by simp
next
  fix plants :: "PowerPlant list" and s :: "plan \<times> rat" and x xa y xb ya
  assume a: "1 / 10 < snd s" "(x, y) = greedy_pass plants s" "(xa, ya) = y" "\<not> \<not> ya"
  then have "greedy_for plants [0..<length plants] (fst s, snd s, False) = (x, xa, True)"
    unfolding greedy_pass_def by simp
  from greedy_for_decreases [OF this] have "xa \<le> snd s - 1 / 20" by simp
  then have "xa * 20 \<le> snd s * 20 - 1" by simp
  then have "\<lceil>xa * 20\<rceil> \<le> \<lceil>snd s * 20 - 1\<rceil>" by (rule ceiling_mono)
  moreover have "0 < \<lceil>snd s * 20\<rceil>" using a(1) by (simp add: ceiling_less_iff) 
  ultimately show "((plants, x, xa), plants, s) \<in> measure (\<lambda>(plants, s). nat \<lceil>snd s * 20\<rceil>)"
    by simp
qed

declare greedy_while.simps [simp del]

subsection \<open>Residual correction\<close>

fun adjust_last :: "PowerPlant list \<Rightarrow> rat \<Rightarrow> nat list \<Rightarrow> plan \<Rightarrow> plan" where
  "adjust_last plants difference [] production_plan = production_plan"
| "adjust_last plants difference (i # is) production_plan =
     (if 0 < snd (production_plan ! i) then
        let plant = plants ! i;
            new_production = snd (production_plan ! i) + difference
        in if of_int (pmin plant) \<le> new_production \<and> new_production \<le> of_int (pmax plant)
           then production_plan[i := (fst (production_plan ! i), round_tenth new_production)]
           else adjust_last plants difference is production_plan
      else adjust_last plants difference is production_plan)"

definition final_adjustment :: "PowerPlant list \<Rightarrow> int \<Rightarrow> plan \<Rightarrow> plan" where
  "final_adjustment plants target_load production_plan =
     (let total_production = sum_list (map snd production_plan);
          difference = of_int target_load - total_production
      in if 1 / 10 < \<bar>difference\<bar>
         then adjust_last plants difference (rev [0..<length production_plan]) production_plan
         else production_plan)"

subsection \<open>The whole computation\<close>

definition initial_plan :: "PowerPlant list \<Rightarrow> plan" where
  "initial_plan plants = map (\<lambda>plant. (name plant, 0)) plants"

text \<open>The wind pass followed by the greedy loop, before the residual correction.\<close>

definition dispatch :: "PowerPlant list \<Rightarrow> int \<Rightarrow> plan \<times> rat \<times> bool \<times> nat" where
  "dispatch plants target_load =
     greedy_while plants (wind_pass plants (initial_plan plants, of_int target_load))"

definition optimize_production :: "PowerPlant list \<Rightarrow> int \<Rightarrow> plan" where
  "optimize_production plants target_load =
     final_adjustment plants target_load (fst (dispatch plants target_load))"

definition make_plant :: "Fuels \<Rightarrow> PlantData \<Rightarrow> error + PowerPlant" where
  "make_plant fl plant_data =
     calculate_cost
       (PowerPlant_init (pd_name plant_data) (pd_type plant_data) (pd_efficiency plant_data)
          (pd_pmin plant_data) (pd_pmax plant_data))
       (gas fl) (kerosine fl) (co2 fl) (wind fl)"

fun make_plants :: "Fuels \<Rightarrow> PlantData list \<Rightarrow> error + PowerPlant list" where
  "make_plants fl [] = Inr []"
| "make_plants fl (plant_data # rest) =
     (case make_plant fl plant_data of
        Inl e \<Rightarrow> Inl e
      | Inr plant \<Rightarrow>
          (case make_plants fl rest of Inl e \<Rightarrow> Inl e | Inr plants \<Rightarrow> Inr (plant # plants)))"

definition merit_order :: "PowerPlant list \<Rightarrow> PowerPlant list" where
  "merit_order plants = sort_key (\<lambda>p. (cost_per_mwh p, - available_power p)) plants"

text \<open>\<open>self.plants\<close> after the sort, or the error raised while the plants were built.\<close>

definition sorted_plants :: "Payload \<Rightarrow> error + PowerPlant list" where
  "sorted_plants payload =
     (case make_plants (fuels payload) (powerplants payload) of
        Inl e \<Rightarrow> Inl e
      | Inr plants \<Rightarrow> Inr (merit_order plants))"

definition calculate_production_plan :: "Payload \<Rightarrow> error + plan" where
  "calculate_production_plan payload =
     (case sorted_plants payload of
        Inl e \<Rightarrow> Inl e
      | Inr plants \<Rightarrow> Inr (optimize_production plants (load payload)))"

subsection \<open>The plans of one computation, in order\<close>

text \<open>
  The plan after every iteration of the wind loop, and after every increment that the
  greedy loop applies: the same steps as \<open>wind_pass\<close>, \<open>greedy_for\<close> and
  \<open>greedy_while\<close>, collecting the plan each step leaves.
\<close>

fun wind_history :: "(nat \<times> PowerPlant) list \<Rightarrow> plan \<times> rat \<Rightarrow> plan list" where
  "wind_history [] s = []"
| "wind_history (ip # rest) s = fst (wind_step ip s) # wind_history rest (wind_step ip s)"

fun greedy_for_history :: "PowerPlant list \<Rightarrow> nat list \<Rightarrow> plan \<times> rat \<Rightarrow> plan list" where
  "greedy_for_history plants [] s = []"
| "greedy_for_history plants (i # is) s =
     (case greedy_unit plants i s of
        None \<Rightarrow> greedy_for_history plants is s
      | Some (production_plan', remaining_load') \<Rightarrow>
          production_plan' #
          (if remaining_load' \<le> 1 / 10 then []
           else greedy_for_history plants is (production_plan', remaining_load')))"

lemma greedy_pass_measure:
  assumes "1 / 10 < snd s" and "greedy_pass plants s = (pl, r, True)"
  shows "nat \<lceil>r * 20\<rceil> < nat \<lceil>snd s * 20\<rceil>"
proof -
  from assms(2) have "greedy_for plants [0..<length plants] (fst s, snd s, False) = (pl, r, True)"
    unfolding greedy_pass_def by simp
  from greedy_for_decreases [OF this] have "r \<le> snd s - 1 / 20" by simp
  then have "r * 20 \<le> snd s * 20 - 1" by simp
  then have "\<lceil>r * 20\<rceil> \<le> \<lceil>snd s * 20 - 1\<rceil>" by (rule ceiling_mono)
  moreover have "0 < \<lceil>snd s * 20\<rceil>" using assms(1) by (simp add: ceiling_less_iff)
  ultimately show ?thesis by simp
qed

function greedy_while_history :: "PowerPlant list \<Rightarrow> plan \<times> rat \<Rightarrow> plan list" where
  "greedy_while_history plants s =
     (if 1 / 10 < snd s then
        (case greedy_pass plants s of (production_plan, remaining_load, made_progress) \<Rightarrow>
           greedy_for_history plants [0..<length plants] s @
           (if \<not> made_progress then []
            else greedy_while_history plants (production_plan, remaining_load)))
      else [])"
  by pat_completeness auto
termination
proof (relation "measure (\<lambda>(plants, s). nat \<lceil>snd s * 20\<rceil>)")
  show "wf (measure (\<lambda>(plants, s). nat \<lceil>snd s * 20\<rceil>))" by simp
next
  fix plants :: "PowerPlant list" and s :: "plan \<times> rat" and x xa y xb ya
  assume "1 / 10 < snd s" "(x, y) = greedy_pass plants s" "(xa, ya) = y" "\<not> \<not> ya"
  then have "nat \<lceil>xa * 20\<rceil> < nat \<lceil>snd s * 20\<rceil>"
    using greedy_pass_measure [of s plants x xa] by simp
  then show "((plants, x, xa), plants, s) \<in> measure (\<lambda>(plants, s). nat \<lceil>snd s * 20\<rceil>)"
    by simp
qed

declare greedy_while_history.simps [simp del]

definition plan_history :: "PowerPlant list \<Rightarrow> int \<Rightarrow> plan list" where
  "plan_history plants target_load =
     (let s0 = (initial_plan plants, of_int target_load);
          s1 = wind_pass plants s0
      in initial_plan plants # wind_history (enumerate 0 plants) s0 @
         greedy_while_history plants s1 @ [optimize_production plants target_load])"

text \<open>Every unit that is on in the first plan is on in the second.\<close>

definition stays_on :: "plan \<Rightarrow> plan \<Rightarrow> bool" where
  "stays_on pl pl' \<longleftrightarrow>
     length pl' = length pl \<and>
     list_all (\<lambda>i. 0 < snd (pl ! i) \<longrightarrow> 0 < snd (pl' ! i)) [0..<length pl]"

subsection \<open>The endpoint\<close>

text \<open>
  \<open>production_plan\<close> on a JSON payload with the three keys: the plan with status 200, or
  the generic status 500 when the computation raised.
\<close>

datatype response = Json_200 plan | Error_500

definition production_plan :: "Payload \<Rightarrow> response" where
  "production_plan payload =
     (case calculate_production_plan payload of
        Inl e \<Rightarrow> Error_500
      | Inr production_plan \<Rightarrow> Json_200 production_plan)"

section \<open>Requests used below\<close>

text \<open>\<open>payload1\<close> of \<open>test_api.py\<close>.\<close>

definition payload1 :: Payload where
  "payload1 =
     \<lparr>load = 480,
      fuels = \<lparr>gas = 134 / 10, kerosine = 508 / 10, co2 = 20, wind = 60\<rparr>,
      powerplants =
        [\<lparr>pd_name = ''gasfiredbig1'', pd_type = ''gasfired'', pd_efficiency = 53 / 100,
          pd_pmin = 100, pd_pmax = 460\<rparr>,
         \<lparr>pd_name = ''gasfiredbig2'', pd_type = ''gasfired'', pd_efficiency = 53 / 100,
          pd_pmin = 100, pd_pmax = 460\<rparr>,
         \<lparr>pd_name = ''gasfiredsomewhatsmaller'', pd_type = ''gasfired'', pd_efficiency = 37 / 100,
          pd_pmin = 40, pd_pmax = 210\<rparr>,
         \<lparr>pd_name = ''tj1'', pd_type = ''turbojet'', pd_efficiency = 3 / 10,
          pd_pmin = 0, pd_pmax = 16\<rparr>,
         \<lparr>pd_name = ''windpark1'', pd_type = ''windturbine'', pd_efficiency = 1,
          pd_pmin = 0, pd_pmax = 150\<rparr>,
         \<lparr>pd_name = ''windpark2'', pd_type = ''windturbine'', pd_efficiency = 1,
          pd_pmin = 0, pd_pmax = 36\<rparr>]\<rparr>"

text \<open>One gas unit whose \<open>pmin\<close> is above the load.\<close>

definition payload_pmin :: Payload where
  "payload_pmin =
     \<lparr>load = 50,
      fuels = \<lparr>gas = 134 / 10, kerosine = 508 / 10, co2 = 20, wind = 60\<rparr>,
      powerplants =
        [\<lparr>pd_name = ''gas1'', pd_type = ''gasfired'', pd_efficiency = 1 / 2,
          pd_pmin = 100, pd_pmax = 200\<rparr>]\<rparr>"

text \<open>One gas unit whose \<open>pmax\<close> is below the load.\<close>

definition payload_short :: Payload where
  "payload_short =
     \<lparr>load = 100,
      fuels = \<lparr>gas = 134 / 10, kerosine = 508 / 10, co2 = 20, wind = 60\<rparr>,
      powerplants =
        [\<lparr>pd_name = ''gas1'', pd_type = ''gasfired'', pd_efficiency = 1 / 2,
          pd_pmin = 10, pd_pmax = 50\<rparr>]\<rparr>"

text \<open>One wind unit whose available power, 90, is below the load and whose \<open>pmax\<close> is above it.\<close>

definition payload_wind :: Payload where
  "payload_wind =
     \<lparr>load = 100,
      fuels = \<lparr>gas = 134 / 10, kerosine = 508 / 10, co2 = 20, wind = 60\<rparr>,
      powerplants =
        [\<lparr>pd_name = ''windpark1'', pd_type = ''windturbine'', pd_efficiency = 1,
          pd_pmin = 0, pd_pmax = 150\<rparr>]\<rparr>"

text \<open>A wind unit with 6 MW available and a turbojet without a minimum output, for a load of 20.\<close>

definition payload_flex :: Payload where
  "payload_flex =
     \<lparr>load = 20,
      fuels = \<lparr>gas = 134 / 10, kerosine = 508 / 10, co2 = 20, wind = 60\<rparr>,
      powerplants =
        [\<lparr>pd_name = ''tj1'', pd_type = ''turbojet'', pd_efficiency = 3 / 10,
          pd_pmin = 0, pd_pmax = 16\<rparr>,
         \<lparr>pd_name = ''windpark1'', pd_type = ''windturbine'', pd_efficiency = 1,
          pd_pmin = 0, pd_pmax = 10\<rparr>]\<rparr>"

definition plants_flex :: "PowerPlant list" where
  "plants_flex =
     [\<lparr>name = ''windpark1'', type = ''windturbine'', efficiency = 1, pmin = 0, pmax = 10,
       cost_per_mwh = 0, available_power = 6\<rparr>,
      \<lparr>name = ''tj1'', type = ''turbojet'', efficiency = 3 / 10, pmin = 0, pmax = 16,
       cost_per_mwh = 508 / 3, available_power = 16\<rparr>]"

definition stalled :: "plan \<times> rat \<times> bool \<times> nat \<Rightarrow> bool" where
  "stalled d = fst (snd (snd d))"

definition passes :: "plan \<times> rat \<times> bool \<times> nat \<Rightarrow> nat" where
  "passes d = snd (snd (snd d))"

definition remaining :: "plan \<times> rat \<times> bool \<times> nat \<Rightarrow> rat" where
  "remaining d = fst (snd d)"

definition total_production :: "plan \<Rightarrow> rat" where
  \<comment> \<open>\<open>sum(item["p"] for item in production_plan)\<close>\<close>
  "total_production pl = sum_list (map snd pl)"

text \<open>The plants of \<open>payload1\<close> with their costs and available power, in merit order.\<close>

definition plants1 :: "PowerPlant list" where
  "plants1 =
     [\<lparr>name = ''windpark1'', type = ''windturbine'', efficiency = 1, pmin = 0, pmax = 150,
       cost_per_mwh = 0, available_power = 90\<rparr>,
      \<lparr>name = ''windpark2'', type = ''windturbine'', efficiency = 1, pmin = 0, pmax = 36,
       cost_per_mwh = 0, available_power = 21\<rparr>,
      \<lparr>name = ''gasfiredbig1'', type = ''gasfired'', efficiency = 53 / 100, pmin = 100,
       pmax = 460, cost_per_mwh = 1940 / 53, available_power = 460\<rparr>,
      \<lparr>name = ''gasfiredbig2'', type = ''gasfired'', efficiency = 53 / 100, pmin = 100,
       pmax = 460, cost_per_mwh = 1940 / 53, available_power = 460\<rparr>,
      \<lparr>name = ''gasfiredsomewhatsmaller'', type = ''gasfired'', efficiency = 37 / 100,
       pmin = 40, pmax = 210, cost_per_mwh = 1940 / 37, available_power = 210\<rparr>,
      \<lparr>name = ''tj1'', type = ''turbojet'', efficiency = 3 / 10, pmin = 0, pmax = 16,
       cost_per_mwh = 508 / 3, available_power = 16\<rparr>]"

definition plan1 :: plan where
  "plan1 =
     [(''windpark1'', 90), (''windpark2'', 21), (''gasfiredbig1'', 369),
      (''gasfiredbig2'', 0), (''gasfiredsomewhatsmaller'', 0), (''tj1'', 0)]"

definition plants_pmin :: "PowerPlant list" where
  "plants_pmin =
     [\<lparr>name = ''gas1'', type = ''gasfired'', efficiency = 1 / 2, pmin = 100, pmax = 200,
       cost_per_mwh = 194 / 5, available_power = 200\<rparr>]"

definition plants_short :: "PowerPlant list" where
  "plants_short =
     [\<lparr>name = ''gas1'', type = ''gasfired'', efficiency = 1 / 2, pmin = 10, pmax = 50,
       cost_per_mwh = 194 / 5, available_power = 50\<rparr>]"

definition plants_wind :: "PowerPlant list" where
  "plants_wind =
     [\<lparr>name = ''windpark1'', type = ''windturbine'', efficiency = 1, pmin = 0, pmax = 150,
       cost_per_mwh = 0, available_power = 90\<rparr>]"

section \<open>Multiples of one tenth\<close>

definition is_tenth :: "rat \<Rightarrow> bool" where
  \<comment> \<open>the values that rounding to 0.1 leaves alone\<close>
  "is_tenth x \<longleftrightarrow> round_tenth x = x"

section \<open>Invariants of the greedy loop\<close>

text \<open>
  The plan has one entry per plant, and every output and the remaining load are multiples
  of 0.1: the state of the program at the start of every greedy pass.
\<close>

definition grid :: "PowerPlant list \<Rightarrow> plan \<times> rat \<Rightarrow> bool" where
  "grid plants s \<longleftrightarrow>
     length (fst s) = length plants \<and> list_all (\<lambda>e. is_tenth (snd e)) (fst s) \<and> is_tenth (snd s)"

text \<open>The cost-bearing units, and those of them that are below their \<open>pmax\<close> in a plan.\<close>

definition cost_bearing :: "PowerPlant list \<Rightarrow> nat" where
  "cost_bearing plants = length (filter (\<lambda>plant. type plant \<noteq> ''windturbine'') plants)"

definition unsaturated :: "PowerPlant list \<Rightarrow> plan \<Rightarrow> nat" where
  "unsaturated plants pl =
     length (filter (\<lambda>i. type (plants ! i) \<noteq> ''windturbine'' \<and>
                         snd (pl ! i) < of_int (pmax (plants ! i)))
               [0..<length plants])"

section \<open>The balance of load and production\<close>

definition total_available :: "PowerPlant list \<Rightarrow> int" where
  "total_available plants = sum_list (map available_power plants)"

text \<open>
  Production and remaining load add up to the target load, the remaining load is not
  negative, and no cost-bearing unit has a negative output.
\<close>

definition balanced :: "PowerPlant list \<Rightarrow> int \<Rightarrow> plan \<times> rat \<Rightarrow> bool" where
  "balanced plants target_load s \<longleftrightarrow>
     total_production (fst s) + snd s = of_int target_load \<and> 0 \<le> snd s \<and>
     list_all (\<lambda>i. type (plants ! i) \<noteq> ''windturbine'' \<longrightarrow> 0 \<le> snd (fst s ! i))
       [0..<length plants]"

text \<open>Every wind unit produces exactly its available power.\<close>

definition wind_full :: "PowerPlant list \<Rightarrow> plan \<Rightarrow> bool" where
  "wind_full plants pl \<longleftrightarrow>
     list_all (\<lambda>i. type (plants ! i) = ''windturbine'' \<longrightarrow>
                   snd (pl ! i) = of_int (available_power (plants ! i)))
       [0..<length plants]"

section \<open>Names and length of the plan\<close>

lemma map_fst_update_same: "map fst (xs[i := (fst (xs ! i), v)]) = map fst xs"
proof (cases "i < length xs")
  case True
  then show ?thesis by (simp add: map_update list_update_same_conv)
next
  case False
  then have "length xs \<le> i" by simp
  then show ?thesis by (simp add: list_update_beyond)
qed

lemma wind_step_names: "map fst (fst (wind_step ip s)) = map fst (fst s)"
  unfolding wind_step_def Let_def
  by (cases ip; cases s) (simp add: map_fst_update_same)

lemma wind_pass_names: "map fst (fst (wind_pass plants s)) = map fst (fst s)"
proof -
  have "map fst (fst (fold wind_step xs s)) = map fst (fst s)" for xs
    by (induction xs arbitrary: s) (simp_all add: wind_step_names)
  then show ?thesis unfolding wind_pass_def .
qed

lemma greedy_unit_names:
  "greedy_unit plants i (pl, r) = Some (pl', r') \<Longrightarrow> map fst pl' = map fst pl"
  unfolding greedy_unit_def Let_def
  by (auto split: if_splits simp: map_fst_update_same)

lemma greedy_for_names:
  "map fst (fst (greedy_for plants is (pl, r, mp))) = map fst pl"
proof (induction "is" arbitrary: pl r mp)
  case Nil
  show ?case by simp
next
  case (Cons i "is")
  show ?case
  proof (cases "greedy_unit plants i (pl, r)")
    case None
    then show ?thesis using Cons.IH by simp
  next
    case (Some a)
    obtain pl1 r1 where a: "a = (pl1, r1)" by (cases a)
    with Some have "map fst pl1 = map fst pl" by (auto dest: greedy_unit_names)
    with Some a Cons.IH [of pl1 r1 True] show ?thesis by simp
  qed
qed

lemma greedy_pass_names: "map fst (fst (greedy_pass plants s)) = map fst (fst s)"
  unfolding greedy_pass_def by (rule greedy_for_names)

lemma greedy_while_done:
  "\<not> 1 / 10 < snd s \<Longrightarrow> greedy_while plants s = (fst s, snd s, False, 0)"
  by (subst greedy_while.simps) simp

lemma greedy_while_stall:
  "1 / 10 < snd s \<Longrightarrow> greedy_pass plants s = (pl, r, False) \<Longrightarrow>
     greedy_while plants s = (pl, r, True, 1)"
  by (subst greedy_while.simps) simp

lemma greedy_while_step:
  "1 / 10 < snd s \<Longrightarrow> greedy_pass plants s = (pl, r, True) \<Longrightarrow>
     greedy_while plants s =
       (fst (greedy_while plants (pl, r)), remaining (greedy_while plants (pl, r)),
        stalled (greedy_while plants (pl, r)), Suc (passes (greedy_while plants (pl, r))))"
  by (subst greedy_while.simps)
     (simp add: remaining_def stalled_def passes_def split: prod.splits)

lemma greedy_while_cases_induct [case_names finished stall step]:
  assumes "\<And>plants s. \<not> 1 / 10 < snd s \<Longrightarrow> P plants s"
    and "\<And>plants s pl r. 1 / 10 < snd s \<Longrightarrow> greedy_pass plants s = (pl, r, False) \<Longrightarrow>
           P plants s"
    and "\<And>plants s pl r. 1 / 10 < snd s \<Longrightarrow> greedy_pass plants s = (pl, r, True) \<Longrightarrow>
           P plants (pl, r) \<Longrightarrow> P plants s"
  shows "P plants s"
proof (induction plants s rule: greedy_while.induct)
  case (1 plants s)
  show ?case
  proof (cases "1 / 10 < snd s")
    case False
    then show ?thesis by (rule assms(1))
  next
    case True
    obtain pl r mp where p: "greedy_pass plants s = (pl, r, mp)" by (cases "greedy_pass plants s")
    show ?thesis
    proof (cases mp)
      case False
      with True p show ?thesis by (auto intro: assms(2))
    next
      case mp: True
      have "P plants (pl, r)" using "1.IH" [OF True p [symmetric] refl] mp by simp
      with True p mp show ?thesis by (auto intro: assms(3))
    qed
  qed
qed

lemma greedy_while_names: "map fst (fst (greedy_while plants s)) = map fst (fst s)"
proof (induction plants s rule: greedy_while_cases_induct)
  case (finished plants s)
  then show ?case by (simp add: greedy_while_done)
next
  case (stall plants s pl r)
  then show ?case using greedy_pass_names [of plants s] by (simp add: greedy_while_stall)
next
  case (step plants s pl r)
  then show ?case using greedy_pass_names [of plants s] by (simp add: greedy_while_step)
qed

lemma adjust_last_names: "map fst (adjust_last plants d is pl) = map fst pl"
  by (induction "is") (simp_all add: Let_def map_fst_update_same)

lemma final_adjustment_names: "map fst (final_adjustment plants t pl) = map fst pl"
  unfolding final_adjustment_def Let_def by (simp add: adjust_last_names)

lemma optimize_production_names: "map fst (optimize_production plants t) = map name plants"
proof -
  have "map fst (initial_plan plants) = map name plants"
    unfolding initial_plan_def by (simp add: comp_def)
  then show ?thesis
    unfolding optimize_production_def dispatch_def
    by (simp add: final_adjustment_names greedy_while_names wind_pass_names)
qed

section \<open>make_plants\<close>

lemma calculate_cost_keeps:
  "calculate_cost u g k c w = Inr u' \<Longrightarrow>
     name u' = name u \<and> type u' = type u \<and> pmin u' = pmin u \<and> pmax u' = pmax u"
  unfolding calculate_cost_def Let_def by (auto split: if_splits)

lemma make_plant_name: "make_plant fl d = Inr u \<Longrightarrow> name u = pd_name d"
  unfolding make_plant_def by (drule calculate_cost_keeps) (simp add: PowerPlant_init_def)

lemma make_plants_names: "make_plants fl ds = Inr plants \<Longrightarrow> map name plants = map pd_name ds"
  by (induction ds arbitrary: plants) (auto split: sum.splits dest: make_plant_name)

section \<open>Load at most zero\<close>

lemma wind_step_nonpos: "r \<le> 0 \<Longrightarrow> wind_step ip (pl, r) = (pl, r)"
  unfolding wind_step_def by (cases ip) simp

lemma wind_pass_nonpos: "r \<le> 0 \<Longrightarrow> wind_pass plants (pl, r) = (pl, r)"
proof -
  have "r \<le> 0 \<Longrightarrow> fold wind_step xs (pl, r) = (pl, r)" for xs
    by (induction xs) (simp_all add: wind_step_nonpos)
  then show "r \<le> 0 \<Longrightarrow> wind_pass plants (pl, r) = (pl, r)" unfolding wind_pass_def .
qed

lemma adjust_last_idle:
  "\<forall>i \<in> set is. \<not> 0 < snd (pl ! i) \<Longrightarrow> adjust_last plants d is pl = pl"
  by (induction "is") simp_all

lemma final_adjustment_idle:
  "\<forall>i < length pl. \<not> 0 < snd (pl ! i) \<Longrightarrow> final_adjustment plants t pl = pl"
  unfolding final_adjustment_def Let_def by (simp add: adjust_last_idle)

lemma initial_plan_nth: "i < length plants \<Longrightarrow> initial_plan plants ! i = (name (plants ! i), 0)"
  unfolding initial_plan_def by simp

lemma length_initial_plan: "length (initial_plan plants) = length plants"
  unfolding initial_plan_def by simp

section \<open>Rounding\<close>

lemma py_round_of_int: "py_round (of_int n) = n"
  unfolding py_round_def by simp

lemma py_round_mono: "x \<le> y \<Longrightarrow> py_round x \<le> py_round y"
proof -
  assume xy: "x \<le> y"
  have fx: "\<lfloor>x\<rfloor> \<le> \<lfloor>y\<rfloor>" using xy by (rule floor_mono)
  show ?thesis
  proof (cases "\<lfloor>x\<rfloor> = \<lfloor>y\<rfloor>")
    case True
    with xy show ?thesis unfolding py_round_def Let_def by auto
  next
    case False
    with fx have "\<lfloor>x\<rfloor> + 1 \<le> \<lfloor>y\<rfloor>" by simp
    moreover have "py_round x \<le> \<lfloor>x\<rfloor> + 1" unfolding py_round_def Let_def by auto
    moreover have "\<lfloor>y\<rfloor> \<le> py_round y" unfolding py_round_def Let_def by auto
    ultimately show ?thesis by linarith
  qed
qed

lemma round_tenth_mono: "x \<le> y \<Longrightarrow> round_tenth x \<le> round_tenth y"
  unfolding round_tenth_def using py_round_mono [of "x * 10" "y * 10"] by (simp add: divide_right_mono)

lemma is_tenth_iff: "is_tenth x \<longleftrightarrow> x * 10 \<in> \<int>"
proof
  assume "is_tenth x"
  then have "x * 10 = of_int (py_round (x * 10))" unfolding is_tenth_def round_tenth_def by simp
  then show "x * 10 \<in> \<int>" by (metis Ints_of_int)
next
  assume "x * 10 \<in> \<int>"
  then show "is_tenth x"
    unfolding is_tenth_def round_tenth_def by (auto elim!: Ints_cases simp: py_round_of_int)
qed

lemma round_tenth_id: "is_tenth x \<Longrightarrow> round_tenth x = x"
  unfolding is_tenth_def .

lemma is_tenth_round [simp]: "is_tenth (round_tenth x)"
  unfolding is_tenth_iff round_tenth_def by simp

lemma is_tenth_of_int [simp]: "is_tenth (of_int n)"
  unfolding is_tenth_iff by simp

lemma is_tenth_0 [simp]: "is_tenth 0"
  unfolding is_tenth_iff by simp

lemma is_tenth_tenth [simp]: "is_tenth (1 / 10)"
  unfolding is_tenth_iff by simp

lemma is_tenth_add: "is_tenth x \<Longrightarrow> is_tenth y \<Longrightarrow> is_tenth (x + y)"
  unfolding is_tenth_iff by (simp add: distrib_right)

lemma is_tenth_diff: "is_tenth x \<Longrightarrow> is_tenth y \<Longrightarrow> is_tenth (x - y)"
  unfolding is_tenth_iff by (simp add: left_diff_distrib)

lemma is_tenth_min: "is_tenth x \<Longrightarrow> is_tenth y \<Longrightarrow> is_tenth (min x y)"
  unfolding min_def by simp

lemma is_tenth_max: "is_tenth x \<Longrightarrow> is_tenth y \<Longrightarrow> is_tenth (max x y)"
  unfolding max_def by simp

lemma round_tenth_round [simp]: "round_tenth (round_tenth x) = round_tenth x"
  by (simp add: round_tenth_id)

lemma round_tenth_of_int [simp]: "round_tenth (of_int n) = of_int n"
  by (simp add: round_tenth_id)

lemma round_tenth_ge_tenth: "1 / 10 \<le> x \<Longrightarrow> 1 / 10 \<le> round_tenth x"
  using round_tenth_mono [of "1 / 10" x] by (simp add: round_tenth_id)

lemma round_tenth_le_int: "x \<le> of_int n \<Longrightarrow> round_tenth x \<le> of_int n"
  using round_tenth_mono [of x "of_int n"] by simp

lemma round_tenth_ge_int: "of_int n \<le> x \<Longrightarrow> of_int n \<le> round_tenth x"
  using round_tenth_mono [of "of_int n" x] by simp

lemma is_tenth_gap: "is_tenth x \<Longrightarrow> 0 < x \<Longrightarrow> 1 / 10 \<le> x"
proof -
  assume "is_tenth x" and pos: "0 < x"
  then obtain n :: int where n: "x * 10 = of_int n" unfolding is_tenth_iff by (auto elim: Ints_cases)
  with pos have "0 < (of_int n :: rat)" by (metis mult_pos_pos zero_less_numeral)
  then have "1 \<le> n" by simp
  then have "(1 :: rat) \<le> of_int n" by simp
  with n show ?thesis by simp
qed

section \<open>A pass without progress\<close>

lemma make_plants_length: "make_plants fl ds = Inr plants \<Longrightarrow> length plants = length ds"
  using make_plants_names [of fl ds plants] by (metis length_map)

lemma greedy_for_progress_kept:
  "snd (snd (greedy_for plants is (pl, r, True)))"
proof (induction "is" arbitrary: pl r)
  case Nil
  show ?case by simp
next
  case (Cons i "is")
  show ?case by (cases "greedy_unit plants i (pl, r)") (auto simp: Cons.IH)
qed

lemma greedy_for_no_progress:
  "greedy_for plants is (pl, r, False) = (pl', r', False) \<Longrightarrow>
     pl' = pl \<and> r' = r \<and> (\<forall>i \<in> set is. greedy_unit plants i (pl, r) = None)"
proof (induction "is")
  case Nil
  then show ?case by simp
next
  case (Cons i "is")
  show ?case
  proof (cases "greedy_unit plants i (pl, r)")
    case None
    with Cons show ?thesis by simp
  next
    case (Some a)
    obtain pl1 r1 where a: "a = (pl1, r1)" by (cases a)
    have "snd (snd (greedy_for plants (i # is) (pl, r, False)))"
      using Some a greedy_for_progress_kept [of plants "is" pl1 r1] by simp
    with Cons.prems show ?thesis by simp
  qed
qed

lemma greedy_pass_no_progress:
  "greedy_pass plants s = (pl, r, False) \<Longrightarrow>
     pl = fst s \<and> r = snd s \<and> (\<forall>i < length plants. greedy_unit plants i s = None)"
  unfolding greedy_pass_def using greedy_for_no_progress [of plants "[0..<length plants]" "fst s" "snd s" pl r]
  by simp

lemma greedy_while_stalled_remaining:
  "stalled (greedy_while plants s) \<longleftrightarrow> 1 / 10 < remaining (greedy_while plants s)"
proof (induction plants s rule: greedy_while_cases_induct)
  case (finished plants s)
  then show ?case by (simp add: greedy_while_done stalled_def remaining_def)
next
  case (stall plants s pl r)
  then show ?case
    using greedy_pass_no_progress [of plants s pl r]
    by (simp add: greedy_while_stall stalled_def remaining_def)
next
  case (step plants s pl r)
  then show ?case by (simp add: greedy_while_step stalled_def remaining_def)
qed

lemma py_int_trunc: "\<bar>of_int (py_int x)\<bar> \<le> \<bar>x\<bar> \<and> \<bar>x - of_int (py_int x)\<bar> < 1"
  unfolding py_int_def by (auto; linarith)

section \<open>One applied increment\<close>

lemma grid_nth: "grid plants (pl, r) \<Longrightarrow> i < length pl \<Longrightarrow> is_tenth (snd (pl ! i))"
  unfolding grid_def by (simp add: list_all_length)

lemma list_all_update_tenth:
  "list_all (\<lambda>e. is_tenth (snd e)) pl \<Longrightarrow> is_tenth v \<Longrightarrow>
     list_all (\<lambda>e. is_tenth (snd e)) (pl[i := (n, v)])"
  by (cases "i < length pl") (auto simp: list_all_length nth_list_update)

text \<open>What an applied increment does, on the grid.\<close>

lemma greedy_unit_applied:
  assumes g: "grid plants (pl, r)" and i: "i < length plants"
    and u: "greedy_unit plants i (pl, r) = Some (pl', r')"
  shows "\<exists>inc. 1 / 10 \<le> inc \<and> inc \<le> r \<and>
           pl' = pl[i := (fst (pl ! i), snd (pl ! i) + inc)] \<and> r' = r - inc \<and>
           type (plants ! i) \<noteq> ''windturbine'' \<and>
           snd (pl ! i) < of_int (pmax (plants ! i)) \<and>
           snd (pl ! i) + inc \<le> of_int (pmax (plants ! i)) \<and>
           (r' = 0 \<or> snd (pl ! i) + inc = of_int (pmax (plants ! i)))"
proof -
  let ?cur = "snd (pl ! i)"
  let ?hi = "rat_of_int (pmax (plants ! i))"
  let ?lo = "rat_of_int (pmin (plants ! i))"
  from g i have tc: "is_tenth ?cur" by (auto intro: grid_nth simp: grid_def)
  from g have tr: "is_tenth r" unfolding grid_def by simp
  have th: "is_tenth ?hi" by simp
  from u have nw: "type (plants ! i) \<noteq> ''windturbine''" and below: "?cur < ?hi"
    unfolding greedy_unit_def Let_def by (auto split: if_splits)
  show ?thesis
  proof (cases "?cur = 0")
    case True
    from u nw below True have guard: "max ?lo (1 / 10) \<le> min ?hi r"
      unfolding greedy_unit_def Let_def by (auto split: if_splits)
    define inc where "inc = min r ?hi"
    from guard have m: "max (min r ?hi) ?lo = inc" unfolding inc_def by auto
    have ti: "is_tenth inc" unfolding inc_def using tr th by (rule is_tenth_min)
    from guard have ge: "1 / 10 \<le> inc" unfolding inc_def by auto
    have ri: "round_tenth inc = inc" using ti by (rule round_tenth_id)
    have "is_tenth (r - inc)" using tr ti by (rule is_tenth_diff)
    then have rr: "round_tenth (r - inc) = r - inc" by (rule round_tenth_id)
    have "greedy_unit plants i (pl, r) =
            Some (pl[i := (fst (pl ! i), round_tenth (0 + round_tenth inc))],
                  round_tenth (r - round_tenth inc))"
      unfolding greedy_unit_def Let_def using nw below True guard ge ri
      by (simp add: m)
    with u ri have "pl' = pl[i := (fst (pl ! i), inc)] \<and> r' = r - inc"
      by (simp add: rr)
    moreover have "inc \<le> r" "inc \<le> ?hi" "r - inc = 0 \<or> inc = ?hi" unfolding inc_def by auto
    ultimately show ?thesis
      using ge nw below True by (intro exI [of _ inc]) simp
  next
    case False
    define inc where "inc = min r (?hi - ?cur)"
    have ti: "is_tenth inc" unfolding inc_def using tr th tc by (intro is_tenth_min is_tenth_diff)
    have ri: "round_tenth inc = inc" using ti by (rule round_tenth_id)
    have "is_tenth (r - inc)" using tr ti by (rule is_tenth_diff)
    then have rr: "round_tenth (r - inc) = r - inc" by (rule round_tenth_id)
    have "is_tenth (?cur + inc)" using tc ti by (rule is_tenth_add)
    then have rc: "round_tenth (?cur + inc) = ?cur + inc" by (rule round_tenth_id)
    have "greedy_unit plants i (pl, r) =
            (if 1 / 10 \<le> min ?hi (r + ?cur) \<and> 1 / 10 \<le> round_tenth inc
             then Some (pl[i := (fst (pl ! i), round_tenth (?cur + round_tenth inc))],
                        round_tenth (r - round_tenth inc))
             else None)"
      unfolding greedy_unit_def Let_def inc_def using nw below False by simp
    with u ri rr rc
    have "1 / 10 \<le> inc \<and> pl' = pl[i := (fst (pl ! i), ?cur + inc)] \<and> r' = r - inc"
      by (simp split: if_splits)
    moreover have "inc \<le> r" "?cur + inc \<le> ?hi" "r - inc = 0 \<or> ?cur + inc = ?hi"
      unfolding inc_def by auto
    ultimately show ?thesis
      using nw below by (intro exI [of _ inc]) simp
  qed
qed

lemma greedy_unit_grid:
  assumes g: "grid plants (pl, r)" and u: "greedy_unit plants i (pl, r) = Some (pl', r')"
  shows "grid plants (pl', r')"
proof -
  from u obtain v w where "pl' = pl[i := (fst (pl ! i), round_tenth v)]" "r' = round_tenth w"
    unfolding greedy_unit_def Let_def by (auto split: if_splits)
  with g show ?thesis unfolding grid_def by (simp add: list_all_update_tenth)
qed

text \<open>Counting the unsaturated units.\<close>

lemma unsaturated_update_le:
  assumes "i < length plants"
    and "snd (pl ! i) < of_int (pmax (plants ! i))"
    and "type (plants ! i) \<noteq> ''windturbine''"
    and "length pl = length plants"
  shows "unsaturated plants (pl[i := (n, v)]) \<le> unsaturated plants pl"
    and "unsaturated plants pl > 0"
    and "v = of_int (pmax (plants ! i)) \<Longrightarrow> unsaturated plants (pl[i := (n, v)]) < unsaturated plants pl"
proof -
  define U where "U q = {j. j < length plants \<and> type (plants ! j) \<noteq> ''windturbine'' \<and>
                          snd (q ! j) < of_int (pmax (plants ! j))}" for q :: plan
  have card: "unsaturated plants q = card (U q)" for q
  proof -
    have "U q = set (filter (\<lambda>i. type (plants ! i) \<noteq> ''windturbine'' \<and>
                         snd (q ! i) < of_int (pmax (plants ! i))) [0..<length plants])"
      unfolding U_def by auto
    moreover have "card (set (filter (\<lambda>i. type (plants ! i) \<noteq> ''windturbine'' \<and>
                         snd (q ! i) < of_int (pmax (plants ! i))) [0..<length plants])) =
        length (filter (\<lambda>i. type (plants ! i) \<noteq> ''windturbine'' \<and>
                         snd (q ! i) < of_int (pmax (plants ! i))) [0..<length plants])"
      by (rule distinct_card) simp
    ultimately show ?thesis unfolding unsaturated_def by simp
  qed
  have fin: "finite (U q)" for q unfolding U_def by simp
  have sub: "U (pl[i := (n, v)]) \<subseteq> U pl"
    unfolding U_def using assms by (auto simp: nth_list_update split: if_splits)
  have mem: "i \<in> U pl" unfolding U_def using assms by simp
  show "unsaturated plants (pl[i := (n, v)]) \<le> unsaturated plants pl"
    unfolding card using sub fin by (simp add: card_mono)
  show "unsaturated plants pl > 0"
    unfolding card using mem fin by (metis card_gt_0_iff empty_iff)
  show "unsaturated plants (pl[i := (n, v)]) < unsaturated plants pl"
    if "v = of_int (pmax (plants ! i))"
  proof -
    have "i \<notin> U (pl[i := (n, v)])" unfolding U_def using that assms by simp
    with mem sub have "U (pl[i := (n, v)]) \<subset> U pl" by auto
    then show ?thesis unfolding card using fin by (simp add: psubset_card_mono)
  qed
qed

lemma unsaturated_le_cost_bearing: "unsaturated plants pl \<le> cost_bearing plants"
proof -
  have "unsaturated plants pl \<le> length (filter (\<lambda>i. type (plants ! i) \<noteq> ''windturbine'') [0..<length plants])"
    unfolding unsaturated_def
    by (rule order_trans [OF _ length_filter_le [of "\<lambda>i. snd (pl ! i) < of_int (pmax (plants ! i))"]])
       (simp add: conj_commute)
  also have "\<dots> = length (filter ((\<lambda>p. type p \<noteq> ''windturbine'') \<circ> (!) plants) [0..<length plants])"
    by (simp add: comp_def)
  also have "\<dots> = length (filter (\<lambda>p. type p \<noteq> ''windturbine'') (map ((!) plants) [0..<length plants]))"
    by (simp add: filter_map)
  also have "\<dots> = cost_bearing plants" unfolding cost_bearing_def by (simp add: map_nth)
  finally show ?thesis .
qed

section \<open>The wind pass\<close>

lemma total_production_update:
  "k < length pl \<Longrightarrow>
     total_production (pl[k := (a, v)]) = total_production pl - snd (pl ! k) + v"
proof (induction pl arbitrary: k)
  case Nil
  then show ?case by simp
next
  case (Cons e pl)
  then show ?case unfolding total_production_def by (cases k) auto
qed

lemma wind_prefix:
  assumes len: "length pl0 = n" and zero: "\<forall>i<n. snd (pl0 ! i) = 0"
    and tr: "is_tenth r0" and r0: "0 \<le> r0"
  shows "length xs \<le> n \<Longrightarrow>
    length (fst (fold wind_step (enumerate 0 xs) (pl0, r0))) = n \<and>
    (\<forall>i<n. length xs \<le> i \<longrightarrow> fst (fold wind_step (enumerate 0 xs) (pl0, r0)) ! i = pl0 ! i) \<and>
    (\<forall>i<length xs. type (xs ! i) \<noteq> ''windturbine'' \<longrightarrow>
        fst (fold wind_step (enumerate 0 xs) (pl0, r0)) ! i = pl0 ! i) \<and>
    (\<forall>i<n. is_tenth (snd (fst (fold wind_step (enumerate 0 xs) (pl0, r0)) ! i))) \<and>
    is_tenth (snd (fold wind_step (enumerate 0 xs) (pl0, r0))) \<and>
    0 \<le> snd (fold wind_step (enumerate 0 xs) (pl0, r0)) \<and>
    total_production (fst (fold wind_step (enumerate 0 xs) (pl0, r0))) +
      snd (fold wind_step (enumerate 0 xs) (pl0, r0)) = total_production pl0 + r0 \<and>
    (0 < snd (fold wind_step (enumerate 0 xs) (pl0, r0)) \<longrightarrow>
       (\<forall>i<length xs. type (xs ! i) = ''windturbine'' \<longrightarrow>
          snd (fst (fold wind_step (enumerate 0 xs) (pl0, r0)) ! i) =
            of_int (available_power (xs ! i))))"
proof (induction xs rule: rev_induct)
  case Nil
  show ?case using len zero tr r0 by simp
next
  case (snoc x xs)
  define k where "k = length xs"
  obtain pl r where s: "fold wind_step (enumerate 0 xs) (pl0, r0) = (pl, r)"
    by (cases "fold wind_step (enumerate 0 xs) (pl0, r0)")
  from snoc.prems have kn: "k < n" unfolding k_def by simp
  then have "length xs \<le> n" unfolding k_def by simp
  from snoc.IH [OF this] s
  have L: "length pl = n"
    and U: "\<forall>i<n. k \<le> i \<longrightarrow> pl ! i = pl0 ! i"
    and N: "\<forall>i<k. type (xs ! i) \<noteq> ''windturbine'' \<longrightarrow> pl ! i = pl0 ! i"
    and T: "\<forall>i<n. is_tenth (snd (pl ! i))"
    and TR: "is_tenth r" and R: "0 \<le> r"
    and S: "total_production pl + r = total_production pl0 + r0"
    and W: "0 < r \<longrightarrow> (\<forall>i<k. type (xs ! i) = ''windturbine'' \<longrightarrow>
              snd (pl ! i) = of_int (available_power (xs ! i)))"
    unfolding k_def by simp_all
  have step: "fold wind_step (enumerate 0 (xs @ [x])) (pl0, r0) = wind_step (k, x) (pl, r)"
    by (simp add: enumerate_append_eq s k_def)
  have plk: "snd (pl ! k) = 0" using U kn zero by simp
  have nth_old: "(xs @ [x]) ! i = xs ! i" if "i < k" for i using that by (simp add: nth_append k_def)
  have nth_new: "(xs @ [x]) ! k = x" by (simp add: k_def)
  have lt: "i < k \<or> i = k" if "i < length (xs @ [x])" for i using that by (auto simp: k_def)
  show ?case
  proof (cases "type x = ''windturbine'' \<and> 0 < r")
    case True
    define m where "m = min (of_int (available_power x)) r"
    have tm: "is_tenth m" unfolding m_def using TR by (intro is_tenth_min) simp_all
    then have rm: "round_tenth m = m" by (rule round_tenth_id)
    have ws: "wind_step (k, x) (pl, r) = (pl[k := (fst (pl ! k), m)], r - m)"
      unfolding wind_step_def Let_def using True rm by (simp add: m_def)
    have mr: "m \<le> r" unfolding m_def by simp
    have A1: "length (pl[k := (fst (pl ! k), m)]) = n" using L by simp
    have A2: "\<forall>i<n. length (xs @ [x]) \<le> i \<longrightarrow> pl[k := (fst (pl ! k), m)] ! i = pl0 ! i"
      using U by (auto simp: k_def)
    have A3: "\<forall>i<length (xs @ [x]). type ((xs @ [x]) ! i) \<noteq> ''windturbine'' \<longrightarrow>
                pl[k := (fst (pl ! k), m)] ! i = pl0 ! i"
    proof (intro allI impI)
      fix i
      assume i: "i < length (xs @ [x])" and w: "type ((xs @ [x]) ! i) \<noteq> ''windturbine''"
      from lt [OF i] w True nth_new have "i < k" by auto
      with N w nth_old [of i] show "pl[k := (fst (pl ! k), m)] ! i = pl0 ! i" by simp
    qed
    have A4: "\<forall>i<n. is_tenth (snd (pl[k := (fst (pl ! k), m)] ! i))"
      using T tm L kn by (auto simp: nth_list_update)
    have A5: "is_tenth (r - m)" using TR tm by (rule is_tenth_diff)
    have A6: "0 \<le> r - m" using mr by simp
    have A7: "total_production (pl[k := (fst (pl ! k), m)]) + (r - m) = total_production pl0 + r0"
      using S plk kn L by (simp add: total_production_update)
    have A8: "0 < r - m \<longrightarrow> (\<forall>i<length (xs @ [x]). type ((xs @ [x]) ! i) = ''windturbine'' \<longrightarrow>
                snd (pl[k := (fst (pl ! k), m)] ! i) = of_int (available_power ((xs @ [x]) ! i)))"
    proof (intro impI allI)
      fix i
      assume pos: "0 < r - m" and i: "i < length (xs @ [x])"
        and w: "type ((xs @ [x]) ! i) = ''windturbine''"
      from pos have "m = of_int (available_power x)" unfolding m_def by (auto simp: min_def split: if_splits)
      moreover from True have "0 < r" by simp
      ultimately show "snd (pl[k := (fst (pl ! k), m)] ! i) = of_int (available_power ((xs @ [x]) ! i))"
        using W w kn L nth_old [of i] nth_new lt [OF i] by auto
    qed
    from A1 A2 A3 A4 A5 A6 A7 A8 show ?thesis unfolding step ws fst_conv snd_conv by blast
  next
    case False
    then have ws: "wind_step (k, x) (pl, r) = (pl, r)" unfolding wind_step_def by auto
    have A2: "\<forall>i<n. length (xs @ [x]) \<le> i \<longrightarrow> pl ! i = pl0 ! i" using U by (auto simp: k_def)
    have A3: "\<forall>i<length (xs @ [x]). type ((xs @ [x]) ! i) \<noteq> ''windturbine'' \<longrightarrow> pl ! i = pl0 ! i"
    proof (intro allI impI)
      fix i
      assume i: "i < length (xs @ [x])" and w: "type ((xs @ [x]) ! i) \<noteq> ''windturbine''"
      from lt [OF i] show "pl ! i = pl0 ! i"
      proof
        assume "i < k"
        with N w nth_old [of i] show ?thesis by simp
      next
        assume "i = k"
        with U kn show ?thesis by simp
      qed
    qed
    have A8: "0 < r \<longrightarrow> (\<forall>i<length (xs @ [x]). type ((xs @ [x]) ! i) = ''windturbine'' \<longrightarrow>
                snd (pl ! i) = of_int (available_power ((xs @ [x]) ! i)))"
    proof (intro allI impI)
      fix i
      assume pos: "0 < r" and i: "i < length (xs @ [x])"
        and w: "type ((xs @ [x]) ! i) = ''windturbine''"
      from lt [OF i] w False pos nth_new have "i < k" by auto
      with W pos w nth_old [of i]
      show "snd (pl ! i) = of_int (available_power ((xs @ [x]) ! i))" by simp
    qed
    from L A2 A3 T TR R S A8 show ?thesis unfolding step ws fst_conv snd_conv by blast
  qed
qed

section \<open>Passes of the greedy loop\<close>

lemma initial_plan_zero: "\<forall>i<length plants. snd (initial_plan plants ! i) = 0"
  by (simp add: initial_plan_nth)

lemma total_production_initial: "total_production (initial_plan plants) = 0"
  unfolding total_production_def initial_plan_def by (induction plants) simp_all

lemma grid_initial: "grid plants (initial_plan plants, of_int t)"
  unfolding grid_def by (simp add: length_initial_plan list_all_length initial_plan_nth)

lemmas wind_pass_facts =
  wind_prefix [where xs = plants and ?pl0.0 = "initial_plan plants" and n = "length plants"
    and ?r0.0 = "of_int t", OF length_initial_plan initial_plan_zero is_tenth_of_int,
    folded wind_pass_def, unfolded total_production_initial] for plants t

lemma wind_pass_grid: "grid plants (wind_pass plants (initial_plan plants, of_int t))"
proof (cases "0 \<le> t")
  case True
  then have "(0 :: rat) \<le> of_int t" by simp
  from wind_pass_facts [OF this order_refl, of plants] show ?thesis
    unfolding grid_def by (simp add: list_all_length)
next
  case False
  then have "(of_int t :: rat) \<le> 0" by simp
  then show ?thesis by (simp add: wind_pass_nonpos grid_initial)
qed

lemma greedy_unit_unsaturated:
  assumes g: "grid plants (pl, r)" and i: "i < length plants"
    and u: "greedy_unit plants i (pl, r) = Some (pl', r')"
  shows "unsaturated plants pl' \<le> unsaturated plants pl \<and> 0 < unsaturated plants pl \<and>
         (r' = 0 \<or> unsaturated plants pl' < unsaturated plants pl)"
proof -
  from greedy_unit_applied [OF g i u] obtain inc where
    pl': "pl' = pl[i := (fst (pl ! i), snd (pl ! i) + inc)]"
    and nw: "type (plants ! i) \<noteq> ''windturbine''"
    and below: "snd (pl ! i) < of_int (pmax (plants ! i))"
    and fin: "r' = 0 \<or> snd (pl ! i) + inc = of_int (pmax (plants ! i))" by blast
  from g have len: "length pl = length plants" unfolding grid_def by simp
  note un = unsaturated_update_le [OF i below nw len]
  from un(1) un(2) un(3) fin show ?thesis unfolding pl' by blast
qed

lemma greedy_for_saturates:
  assumes "grid plants (pl, r)" and "\<forall>i \<in> set is. i < length plants"
    and "greedy_for plants is (pl, r, mp) = (pl', r', mp')"
  shows "grid plants (pl', r') \<and> unsaturated plants pl' \<le> unsaturated plants pl \<and>
         (mp' \<and> \<not> mp \<longrightarrow> 0 < unsaturated plants pl \<and>
            (r' \<le> 1 / 10 \<or> unsaturated plants pl' < unsaturated plants pl))"
  using assms
proof (induction "is" arbitrary: pl r mp)
  case Nil
  then show ?case by simp
next
  case (Cons i "is")
  from Cons.prems(2) have i: "i < length plants" and rest: "\<forall>i \<in> set is. i < length plants" by simp_all
  show ?case
  proof (cases "greedy_unit plants i (pl, r)")
    case None
    with Cons.prems(3) have "greedy_for plants is (pl, r, mp) = (pl', r', mp')" by simp
    from Cons.IH [OF Cons.prems(1) rest this] show ?thesis .
  next
    case (Some a)
    obtain pl1 r1 where a: "a = (pl1, r1)" by (cases a)
    from Some a have u: "greedy_unit plants i (pl, r) = Some (pl1, r1)" by simp
    have g1: "grid plants (pl1, r1)" using Cons.prems(1) u by (rule greedy_unit_grid)
    from greedy_unit_unsaturated [OF Cons.prems(1) i u]
    have le: "unsaturated plants pl1 \<le> unsaturated plants pl"
      and pos: "0 < unsaturated plants pl"
      and fin: "r1 = 0 \<or> unsaturated plants pl1 < unsaturated plants pl" by simp_all
    show ?thesis
    proof (cases "r1 \<le> 1 / 10")
      case True
      with Cons.prems(3) u have "pl' = pl1" "r' = r1" "mp'" by simp_all
      with g1 le pos True show ?thesis by simp
    next
      case False
      with Cons.prems(3) u have "greedy_for plants is (pl1, r1, True) = (pl', r', mp')" by simp
      from Cons.IH [OF g1 rest this] have "grid plants (pl', r')"
        and "unsaturated plants pl' \<le> unsaturated plants pl1" by simp_all
      moreover from False fin have "unsaturated plants pl1 < unsaturated plants pl" by auto
      ultimately show ?thesis using pos by auto
    qed
  qed
qed

lemma greedy_pass_saturates:
  assumes "grid plants s" and "greedy_pass plants s = (pl, r, mp)"
  shows "grid plants (pl, r) \<and> unsaturated plants pl \<le> unsaturated plants (fst s) \<and>
         (mp \<longrightarrow> 0 < unsaturated plants (fst s) \<and>
            (r \<le> 1 / 10 \<or> unsaturated plants pl < unsaturated plants (fst s)))"
  using greedy_for_saturates [of plants "fst s" "snd s" "[0..<length plants]" False pl r mp] assms
  unfolding greedy_pass_def by simp

lemma greedy_while_passes:
  "grid plants s \<Longrightarrow>
     passes (greedy_while plants s) \<le>
       unsaturated plants (fst s) + (if stalled (greedy_while plants s) then 1 else 0)"
proof (induction plants s rule: greedy_while_cases_induct)
  case (finished plants s)
  then show ?case by (simp add: greedy_while_done passes_def)
next
  case (stall plants s pl r)
  then show ?case by (simp add: greedy_while_stall passes_def stalled_def)
next
  case (step plants s pl r)
  from greedy_pass_saturates [OF step.prems step.hyps(2)]
  have g: "grid plants (pl, r)" and pos: "0 < unsaturated plants (fst s)"
    and fin: "r \<le> 1 / 10 \<or> unsaturated plants pl < unsaturated plants (fst s)" by simp_all
  note IH = step.IH [OF g]
  have st: "stalled (greedy_while plants s) = stalled (greedy_while plants (pl, r))"
    and pa: "passes (greedy_while plants s) = Suc (passes (greedy_while plants (pl, r)))"
    using step.hyps by (simp_all add: greedy_while_step stalled_def passes_def)
  from fin show ?case
  proof
    assume "r \<le> 1 / 10"
    then have "greedy_while plants (pl, r) = (pl, r, False, 0)" by (simp add: greedy_while_done)
    with pos show ?thesis unfolding st pa by (simp add: passes_def stalled_def)
  next
    assume "unsaturated plants pl < unsaturated plants (fst s)"
    with IH show ?thesis unfolding st pa by simp
  qed
qed

section \<open>Load and production stay balanced\<close>

lemma balanced_iff:
  "balanced plants t (pl, r) \<longleftrightarrow>
     total_production pl + r = of_int t \<and> 0 \<le> r \<and>
     (\<forall>i<length plants. type (plants ! i) \<noteq> ''windturbine'' \<longrightarrow> 0 \<le> snd (pl ! i))"
  unfolding balanced_def by (auto simp: list_all_iff)

lemma wind_full_iff:
  "wind_full plants pl \<longleftrightarrow>
     (\<forall>i<length plants. type (plants ! i) = ''windturbine'' \<longrightarrow>
        snd (pl ! i) = of_int (available_power (plants ! i)))"
  unfolding wind_full_def by (auto simp: list_all_iff)

lemma wind_pass_balanced:
  assumes "0 \<le> t"
  shows "balanced plants t (wind_pass plants (initial_plan plants, of_int t))"
    and "0 < snd (wind_pass plants (initial_plan plants, of_int t)) \<Longrightarrow>
           wind_full plants (fst (wind_pass plants (initial_plan plants, of_int t)))"
proof -
  from assms have "(0 :: rat) \<le> of_int t" by simp
  note f = wind_pass_facts [OF this order_refl, of plants]
  obtain pl r where w: "wind_pass plants (initial_plan plants, of_int t) = (pl, r)"
    by (cases "wind_pass plants (initial_plan plants, of_int t)")
  from f show "balanced plants t (wind_pass plants (initial_plan plants, of_int t))"
    unfolding w balanced_iff by (simp add: initial_plan_nth)
  from f show "0 < snd (wind_pass plants (initial_plan plants, of_int t)) \<Longrightarrow>
           wind_full plants (fst (wind_pass plants (initial_plan plants, of_int t)))"
    unfolding w wind_full_iff by simp
qed

lemma greedy_unit_balanced:
  assumes g: "grid plants (pl, r)" and b: "balanced plants t (pl, r)" and i: "i < length plants"
    and u: "greedy_unit plants i (pl, r) = Some (pl', r')"
  shows "balanced plants t (pl', r')"
    and "wind_full plants pl \<Longrightarrow> wind_full plants pl'"
proof -
  from greedy_unit_applied [OF g i u] obtain inc where
    inc: "1 / 10 \<le> inc" "inc \<le> r"
    and pl': "pl' = pl[i := (fst (pl ! i), snd (pl ! i) + inc)]" and r': "r' = r - inc"
    and nw: "type (plants ! i) \<noteq> ''windturbine''" by blast
  from g have len: "length pl = length plants" unfolding grid_def by simp
  from b have tot: "total_production pl + r = of_int t" and r0: "0 \<le> r"
    and nn: "\<forall>j<length plants. type (plants ! j) \<noteq> ''windturbine'' \<longrightarrow> 0 \<le> snd (pl ! j)"
    unfolding balanced_iff by simp_all
  have "total_production pl' + r' = of_int t"
    unfolding pl' r' using tot i len by (simp add: total_production_update)
  moreover have "0 \<le> r'" unfolding r' using inc by simp
  moreover have "\<forall>j<length plants. type (plants ! j) \<noteq> ''windturbine'' \<longrightarrow> 0 \<le> snd (pl' ! j)"
    unfolding pl' using nn inc i len by (auto simp: nth_list_update)
  ultimately show "balanced plants t (pl', r')" unfolding balanced_iff by simp
  show "wind_full plants pl \<Longrightarrow> wind_full plants pl'"
    unfolding wind_full_iff pl' using nw i len by (auto simp: nth_list_update)
qed

lemma greedy_for_balanced:
  assumes "grid plants (pl, r)" and "balanced plants t (pl, r)"
    and "\<forall>i \<in> set is. i < length plants"
    and "greedy_for plants is (pl, r, mp) = (pl', r', mp')"
  shows "balanced plants t (pl', r') \<and> (wind_full plants pl \<longrightarrow> wind_full plants pl')"
  using assms
proof (induction "is" arbitrary: pl r mp)
  case Nil
  then show ?case by simp
next
  case (Cons i "is")
  from Cons.prems(3) have i: "i < length plants" and rest: "\<forall>i \<in> set is. i < length plants" by simp_all
  show ?case
  proof (cases "greedy_unit plants i (pl, r)")
    case None
    with Cons.prems(4) have "greedy_for plants is (pl, r, mp) = (pl', r', mp')" by simp
    from Cons.IH [OF Cons.prems(1,2) rest this] show ?thesis .
  next
    case (Some a)
    obtain pl1 r1 where a: "a = (pl1, r1)" by (cases a)
    from Some a have u: "greedy_unit plants i (pl, r) = Some (pl1, r1)" by simp
    have g1: "grid plants (pl1, r1)" using Cons.prems(1) u by (rule greedy_unit_grid)
    note b1 = greedy_unit_balanced [OF Cons.prems(1,2) i u]
    show ?thesis
    proof (cases "r1 \<le> 1 / 10")
      case True
      with Cons.prems(4) u have "pl' = pl1" "r' = r1" by simp_all
      with b1 show ?thesis by simp
    next
      case False
      with Cons.prems(4) u have "greedy_for plants is (pl1, r1, True) = (pl', r', mp')" by simp
      from Cons.IH [OF g1 b1(1) rest this] b1(2) show ?thesis by simp
    qed
  qed
qed

lemma greedy_pass_balanced:
  assumes "grid plants s" and "balanced plants t s" and "greedy_pass plants s = (pl, r, mp)"
  shows "balanced plants t (pl, r) \<and> (wind_full plants (fst s) \<longrightarrow> wind_full plants pl)"
  using greedy_for_balanced [of plants "fst s" "snd s" t "[0..<length plants]" False pl r mp] assms
  unfolding greedy_pass_def by simp

text \<open>The state in which the loop ends.\<close>

lemma greedy_while_end:
  "grid plants s \<Longrightarrow> balanced plants t s \<Longrightarrow>
     grid plants (fst (greedy_while plants s), remaining (greedy_while plants s)) \<and>
     balanced plants t (fst (greedy_while plants s), remaining (greedy_while plants s)) \<and>
     (wind_full plants (fst s) \<longrightarrow> wind_full plants (fst (greedy_while plants s))) \<and>
     (stalled (greedy_while plants s) \<longrightarrow>
        (\<forall>i<length plants.
           greedy_unit plants i (fst (greedy_while plants s), remaining (greedy_while plants s)) = None))"
proof (induction plants s rule: greedy_while_cases_induct)
  case (finished plants s)
  then show ?case by (simp add: greedy_while_done remaining_def stalled_def)
next
  case (stall plants s pl r)
  from greedy_pass_no_progress [OF stall.hyps(2)] stall.prems stall.hyps(1)
  show ?case by (simp add: greedy_while_stall [OF stall.hyps] remaining_def stalled_def)
next
  case (step plants s pl r)
  from greedy_pass_saturates [OF step.prems(1) step.hyps(2)] have g: "grid plants (pl, r)" by simp
  from greedy_pass_balanced [OF step.prems step.hyps(2)]
  have b: "balanced plants t (pl, r)" and w: "wind_full plants (fst s) \<longrightarrow> wind_full plants pl"
    by simp_all
  from step.IH [OF g b] w show ?case
    by (simp add: greedy_while_step [OF step.hyps] remaining_def stalled_def)
qed

section \<open>When the loop cannot stall\<close>

text \<open>A unit without a minimum output that is below its maximum always accepts load.\<close>

lemma greedy_unit_refuses:
  assumes g: "grid plants (pl, r)" and b: "balanced plants t (pl, r)" and i: "i < length plants"
    and r: "1 / 10 < r" and nw: "type (plants ! i) \<noteq> ''windturbine''"
    and lo: "pmin (plants ! i) \<le> 0"
    and u: "greedy_unit plants i (pl, r) = None"
  shows "of_int (pmax (plants ! i)) \<le> snd (pl ! i)"
proof (rule ccontr)
  let ?cur = "snd (pl ! i)"
  let ?hi = "rat_of_int (pmax (plants ! i))"
  let ?lo = "rat_of_int (pmin (plants ! i))"
  assume "\<not> ?hi \<le> ?cur"
  then have below: "?cur < ?hi" by simp
  from g have len: "length pl = length plants" unfolding grid_def by simp
  from g i len have tc: "is_tenth ?cur" by (auto intro: grid_nth)
  from b i nw have c0: "0 \<le> ?cur" unfolding balanced_iff by simp
  from lo have lo0: "?lo \<le> 0" by simp
  show False
  proof (cases "?cur = 0")
    case True
    with below have "0 < pmax (plants ! i)" by simp
    then have "1 \<le> pmax (plants ! i)" by simp
    then have hi1: "1 \<le> ?hi" by simp
    with r lo0 have guard: "max ?lo (1 / 10) \<le> min ?hi r" by simp
    from hi1 r lo0 have "1 / 10 \<le> max (min r ?hi) ?lo" by simp
    then have "1 / 10 \<le> round_tenth (max (min r ?hi) ?lo)" by (rule round_tenth_ge_tenth)
    with u nw below True guard show False
      unfolding greedy_unit_def Let_def by simp
  next
    case False
    with c0 have "0 < ?cur" by simp
    with tc have c1: "1 / 10 \<le> ?cur" by (rule is_tenth_gap)
    have "is_tenth (?hi - ?cur)" using tc by (intro is_tenth_diff) simp_all
    moreover from below have "0 < ?hi - ?cur" by simp
    ultimately have d1: "1 / 10 \<le> ?hi - ?cur" by (rule is_tenth_gap)
    from c1 below r have guard: "1 / 10 \<le> min ?hi (r + ?cur)" by simp
    from d1 r have "1 / 10 \<le> min r (?hi - ?cur)" by simp
    then have "1 / 10 \<le> round_tenth (min r (?hi - ?cur))" by (rule round_tenth_ge_tenth)
    with u nw below False guard show False
      unfolding greedy_unit_def Let_def by simp
  qed
qed

lemma calculate_cost_available:
  "calculate_cost u g k c w = Inr u' \<Longrightarrow> type u' \<noteq> ''windturbine'' \<Longrightarrow>
     available_power u' = pmax u' \<or> available_power u' = available_power u"
  unfolding calculate_cost_def Let_def by (auto split: if_splits)

lemma make_plant_available:
  "make_plant fl d = Inr u \<Longrightarrow> type u \<noteq> ''windturbine'' \<Longrightarrow>
     available_power u = pmax u \<or> available_power u = 0"
  unfolding make_plant_def by (drule calculate_cost_available) (simp_all add: PowerPlant_init_def)

lemma make_plants_available:
  "make_plants fl ds = Inr plants \<Longrightarrow>
     \<forall>u \<in> set plants. type u \<noteq> ''windturbine'' \<longrightarrow>
        available_power u = pmax u \<or> available_power u = 0"
  by (induction ds arbitrary: plants) (auto split: sum.splits dest: make_plant_available)

lemma sorted_plants_available:
  "sorted_plants payload = Inr plants \<Longrightarrow>
     \<forall>u \<in> set plants. type u \<noteq> ''windturbine'' \<longrightarrow>
        available_power u = pmax u \<or> available_power u = 0"
  unfolding sorted_plants_def merit_order_def
  by (auto split: sum.splits dest!: make_plants_available)

lemma total_ge_available:
  "length plants = length pl \<Longrightarrow>
     \<forall>i<length plants. of_int (available_power (plants ! i)) \<le> snd (pl ! i) \<Longrightarrow>
     of_int (total_available plants) \<le> total_production pl"
proof (induction plants pl rule: list_induct2)
  case Nil
  show ?case by (simp add: total_available_def total_production_def)
next
  case (Cons x xs y ys)
  from Cons.prems have h: "of_int (available_power x) \<le> snd y"
    and t: "\<forall>i<length xs. of_int (available_power (xs ! i)) \<le> snd (ys ! i)"
    by (simp_all add: All_less_Suc2)
  from Cons.IH [OF t] h show ?case
    by (simp add: total_available_def total_production_def)
qed

lemma no_stall:
  assumes av: "\<forall>u \<in> set plants. type u \<noteq> ''windturbine'' \<longrightarrow>
                 available_power u = pmax u \<or> available_power u = 0"
    and t0: "0 \<le> t" and cap: "t \<le> total_available plants"
    and lo: "\<forall>u \<in> set plants. type u \<noteq> ''windturbine'' \<longrightarrow> pmin u \<le> 0"
  shows "\<not> stalled (dispatch plants t)"
proof
  let ?w = "wind_pass plants (initial_plan plants, of_int t)"
  let ?g = "greedy_while plants ?w"
  assume "stalled (dispatch plants t)"
  then have st: "stalled ?g" unfolding dispatch_def .
  have "1 / 10 < snd ?w"
  proof (rule ccontr)
    assume "\<not> 1 / 10 < snd ?w"
    then have "?g = (fst ?w, snd ?w, False, 0)" by (rule greedy_while_done)
    with st show False by (simp add: stalled_def)
  qed
  then have "0 < snd ?w" by simp
  then have wf: "wind_full plants (fst ?w)" by (rule wind_pass_balanced(2) [OF t0])
  have gw: "grid plants ?w" by (rule wind_pass_grid)
  have bw: "balanced plants t ?w" by (rule wind_pass_balanced(1) [OF t0])
  from greedy_while_end [OF gw bw] wf st
  have g: "grid plants (fst ?g, remaining ?g)" and b: "balanced plants t (fst ?g, remaining ?g)"
    and w: "wind_full plants (fst ?g)"
    and none: "\<forall>i<length plants. greedy_unit plants i (fst ?g, remaining ?g) = None"
    by simp_all
  from st have r: "1 / 10 < remaining ?g" by (simp add: greedy_while_stalled_remaining)
  from g have len: "length plants = length (fst ?g)" unfolding grid_def by simp
  have "\<forall>i<length plants. of_int (available_power (plants ! i)) \<le> snd (fst ?g ! i)"
  proof (intro allI impI)
    fix i
    assume i: "i < length plants"
    then have mem: "plants ! i \<in> set plants" by simp
    show "of_int (available_power (plants ! i)) \<le> snd (fst ?g ! i)"
    proof (cases "type (plants ! i) = ''windturbine''")
      case True
      with w i show ?thesis unfolding wind_full_iff by simp
    next
      case False
      from lo mem False have "pmin (plants ! i) \<le> 0" by blast
      from greedy_unit_refuses [OF g b i r False this] none i
      have hi: "of_int (pmax (plants ! i)) \<le> snd (fst ?g ! i)" by simp
      from b i False have z: "0 \<le> snd (fst ?g ! i)" unfolding balanced_iff by simp
      from av mem False have "available_power (plants ! i) = pmax (plants ! i) \<or>
          available_power (plants ! i) = 0" by blast
      with hi z show ?thesis by auto
    qed
  qed
  with len have "of_int (total_available plants) \<le> total_production (fst ?g)"
    by (rule total_ge_available)
  moreover from b have "total_production (fst ?g) + remaining ?g = of_int t"
    unfolding balanced_iff by simp
  moreover from cap have "rat_of_int t \<le> of_int (total_available plants)" by simp
  ultimately show False using r by simp
qed

lemma conserved_if_not_stalled:
  assumes t0: "0 \<le> t" and ns: "\<not> stalled (dispatch plants t)"
  shows "optimize_production plants t = fst (dispatch plants t)"
    and "\<bar>total_production (optimize_production plants t) - of_int t\<bar> \<le> 1 / 10"
proof -
  let ?w = "wind_pass plants (initial_plan plants, of_int t)"
  let ?g = "greedy_while plants ?w"
  have gw: "grid plants ?w" by (rule wind_pass_grid)
  have bw: "balanced plants t ?w" by (rule wind_pass_balanced(1) [OF t0])
  from greedy_while_end [OF gw bw]
  have b: "balanced plants t (fst ?g, remaining ?g)" by simp
  from ns have r: "remaining ?g \<le> 1 / 10"
    unfolding dispatch_def by (simp add: greedy_while_stalled_remaining)
  from b have tot: "total_production (fst ?g) + remaining ?g = of_int t" and r0: "0 \<le> remaining ?g"
    unfolding balanced_iff by simp_all
  from tot have d: "of_int t - total_production (fst ?g) = remaining ?g" by simp
  with r r0 have "\<not> 1 / 10 < \<bar>of_int t - sum_list (map snd (fst ?g))\<bar>"
    unfolding total_production_def by simp
  then show e: "optimize_production plants t = fst (dispatch plants t)"
    unfolding optimize_production_def final_adjustment_def Let_def dispatch_def by simp
  from d r r0 have "\<bar>total_production (fst ?g) - of_int t\<bar> \<le> 1 / 10" by simp
  then show "\<bar>total_production (optimize_production plants t) - of_int t\<bar> \<le> 1 / 10"
    unfolding e dispatch_def .
qed

section \<open>Units that are on stay on\<close>

lemma stays_on_iff:
  "stays_on pl pl' \<longleftrightarrow>
     length pl' = length pl \<and> (\<forall>i<length pl. 0 < snd (pl ! i) \<longrightarrow> 0 < snd (pl' ! i))"
  unfolding stays_on_def by (auto simp: list_all_iff)

lemma stays_on_refl: "stays_on pl pl"
  unfolding stays_on_iff by simp

lemma stays_on_trans: "stays_on a b \<Longrightarrow> stays_on b c \<Longrightarrow> stays_on a c"
  unfolding stays_on_iff by simp

lemma transp_stays_on: "transp stays_on"
  by (rule transpI) (rule stays_on_trans)

lemma stays_on_update:
  assumes "i < length pl \<Longrightarrow> 0 < snd (pl ! i) \<Longrightarrow> 0 < v"
  shows "stays_on pl (pl[i := (n, v)])"
proof -
  have "0 < snd (pl[i := (n, v)] ! j)" if "j < length pl" "0 < snd (pl ! j)" for j
  proof (cases "j = i")
    case True
    with that assms show ?thesis by simp
  next
    case False
    with that show ?thesis by simp
  qed
  then show ?thesis unfolding stays_on_iff by simp
qed

text \<open>Chains of plans.\<close>

lemma chain_append:
  assumes "successively stays_on (a # xs)" and "last (a # xs) = b"
    and "successively stays_on (b # ys)"
  shows "successively stays_on (a # xs @ ys) \<and> last (a # xs @ ys) = last (b # ys)"
  using assms(1,2)
proof (induction xs arbitrary: a)
  case Nil
  with assms(3) show ?case by simp
next
  case (Cons x xs)
  from Cons.prems have "stays_on a x" "successively stays_on (x # xs)" "last (x # xs) = b"
    by simp_all
  with Cons.IH [of x] show ?case by simp
qed

text \<open>The wind loop: an iteration writes an entry that was 0.\<close>

lemma wind_step_length: "length (fst (wind_step ip s)) = length (fst s)"
  using wind_step_names [of ip s] by (metis length_map)

lemma wind_step_stays_on:
  assumes "\<forall>i<length pl. k \<le> i \<longrightarrow> snd (pl ! i) = 0"
  shows "stays_on pl (fst (wind_step (k, x) (pl, r)))"
    and "\<forall>i<length pl. Suc k \<le> i \<longrightarrow> snd (fst (wind_step (k, x) (pl, r)) ! i) = 0"
proof -
  have z: "\<not> 0 < snd (pl ! k)" if "k < length pl" using assms that by simp
  show "stays_on pl (fst (wind_step (k, x) (pl, r)))"
    unfolding wind_step_def Let_def using z
    by (auto simp: stays_on_refl intro!: stays_on_update)
  show "\<forall>i<length pl. Suc k \<le> i \<longrightarrow> snd (fst (wind_step (k, x) (pl, r)) ! i) = 0"
    unfolding wind_step_def Let_def using assms by simp
qed

lemma wind_history_chain:
  "\<forall>i<length (fst s). k \<le> i \<longrightarrow> snd (fst s ! i) = 0 \<Longrightarrow>
     successively stays_on (fst s # wind_history (enumerate k xs) s) \<and>
     last (fst s # wind_history (enumerate k xs) s) = fst (fold wind_step (enumerate k xs) s)"
proof (induction xs arbitrary: k s)
  case Nil
  show ?case by simp
next
  case (Cons x xs)
  obtain pl r where s: "s = (pl, r)" by (cases s)
  from Cons.prems s have z: "\<forall>i<length pl. k \<le> i \<longrightarrow> snd (pl ! i) = 0" by simp
  note w = wind_step_stays_on [OF z, of x r]
  have "\<forall>i<length (fst (wind_step (k, x) s)). Suc k \<le> i \<longrightarrow>
          snd (fst (wind_step (k, x) s) ! i) = 0"
    using w(2) by (simp add: s wind_step_length)
  from Cons.IH [OF this] w(1) show ?case by (simp add: s)
qed

text \<open>The greedy loop: an increment is at least 0.1.\<close>

lemma greedy_unit_stays_on:
  assumes "greedy_unit plants i (pl, r) = Some (pl', r')"
  shows "stays_on pl pl'"
proof -
  from assms obtain inc where inc: "1 / 10 \<le> inc"
    and pl': "pl' = pl[i := (fst (pl ! i), round_tenth (snd (pl ! i) + inc))]"
    unfolding greedy_unit_def Let_def by (auto split: if_splits)
  have "0 < round_tenth (snd (pl ! i) + inc)" if "0 < snd (pl ! i)"
  proof -
    from that inc have "1 / 10 \<le> snd (pl ! i) + inc" by simp
    then have "1 / 10 \<le> round_tenth (snd (pl ! i) + inc)" by (rule round_tenth_ge_tenth)
    then show ?thesis by simp
  qed
  then show ?thesis unfolding pl' by (intro stays_on_update)
qed

lemma greedy_for_history_chain:
  "successively stays_on (pl # greedy_for_history plants is (pl, r)) \<and>
   last (pl # greedy_for_history plants is (pl, r)) = fst (greedy_for plants is (pl, r, mp))"
proof (induction "is" arbitrary: pl r mp)
  case Nil
  show ?case by simp
next
  case (Cons i "is")
  show ?case
  proof (cases "greedy_unit plants i (pl, r)")
    case None
    with Cons.IH [of pl r mp] show ?thesis by simp
  next
    case (Some a)
    obtain pl1 r1 where a: "a = (pl1, r1)" by (cases a)
    from Some a have "stays_on pl pl1" by (auto dest: greedy_unit_stays_on)
    with Some a Cons.IH [of pl1 r1 True] show ?thesis by (auto split: if_splits)
  qed
qed

lemma greedy_while_history_done:
  "\<not> 1 / 10 < snd s \<Longrightarrow> greedy_while_history plants s = []"
  by (subst greedy_while_history.simps) simp

lemma greedy_while_history_stall:
  "1 / 10 < snd s \<Longrightarrow> greedy_pass plants s = (pl, r, False) \<Longrightarrow>
     greedy_while_history plants s = greedy_for_history plants [0..<length plants] s"
  by (subst greedy_while_history.simps) simp

lemma greedy_while_history_step:
  "1 / 10 < snd s \<Longrightarrow> greedy_pass plants s = (pl, r, True) \<Longrightarrow>
     greedy_while_history plants s =
       greedy_for_history plants [0..<length plants] s @ greedy_while_history plants (pl, r)"
  by (subst greedy_while_history.simps) simp

lemma greedy_pass_history_chain:
  "successively stays_on (fst s # greedy_for_history plants [0..<length plants] s) \<and>
   last (fst s # greedy_for_history plants [0..<length plants] s) = fst (greedy_pass plants s)"
  using greedy_for_history_chain [of "fst s" plants "[0..<length plants]" "snd s" False]
  unfolding greedy_pass_def by simp

lemma greedy_while_history_chain:
  "successively stays_on (fst s # greedy_while_history plants s) \<and>
   last (fst s # greedy_while_history plants s) = fst (greedy_while plants s)"
proof (induction plants s rule: greedy_while_cases_induct)
  case (finished plants s)
  then show ?case by (simp add: greedy_while_history_done greedy_while_done)
next
  case (stall plants s pl r)
  with greedy_pass_history_chain [of s plants] show ?case
    by (simp add: greedy_while_history_stall [OF stall.hyps] greedy_while_stall [OF stall.hyps])
next
  case (step plants s pl r)
  from greedy_pass_history_chain [of s plants] step.hyps(2)
  have a: "successively stays_on (fst s # greedy_for_history plants [0..<length plants] s)"
    and b: "last (fst s # greedy_for_history plants [0..<length plants] s) = pl" by simp_all
  from step.IH have c: "successively stays_on (pl # greedy_while_history plants (pl, r))"
    and d: "last (pl # greedy_while_history plants (pl, r)) = fst (greedy_while plants (pl, r))"
    by simp_all
  from chain_append [OF a b c] d show ?case
    by (simp add: greedy_while_history_step [OF step.hyps] greedy_while_step [OF step.hyps])
qed

text \<open>The residual correction: it only ever adds a positive difference to an active unit.\<close>

lemma adjust_last_stays_on: "1 / 10 < d \<Longrightarrow> stays_on pl (adjust_last plants d is pl)"
proof (induction "is")
  case Nil
  show ?case by (simp add: stays_on_refl)
next
  case (Cons i "is")
  have "0 < round_tenth (snd (pl ! i) + d)" if "0 < snd (pl ! i)"
  proof -
    from that Cons.prems have "1 / 10 \<le> snd (pl ! i) + d" by simp
    then have "1 / 10 \<le> round_tenth (snd (pl ! i) + d)" by (rule round_tenth_ge_tenth)
    then show ?thesis by simp
  qed
  with Cons show ?case by (auto simp: Let_def intro!: stays_on_update)
qed

lemma final_adjustment_stays_on:
  assumes "0 \<le> t"
  shows "stays_on (fst (dispatch plants t)) (optimize_production plants t)"
proof -
  let ?w = "wind_pass plants (initial_plan plants, of_int t)"
  let ?g = "greedy_while plants ?w"
  have gw: "grid plants ?w" by (rule wind_pass_grid)
  have bw: "balanced plants t ?w" by (rule wind_pass_balanced(1) [OF assms])
  from greedy_while_end [OF gw bw]
  have b: "balanced plants t (fst ?g, remaining ?g)" by simp
  then have "0 \<le> of_int t - total_production (fst ?g)" unfolding balanced_iff by simp
  then have "1 / 10 < of_int t - sum_list (map snd (fst ?g))"
    if "1 / 10 < \<bar>of_int t - sum_list (map snd (fst ?g))\<bar>"
    using that unfolding total_production_def by simp
  then show ?thesis
    unfolding optimize_production_def final_adjustment_def Let_def dispatch_def
    by (simp add: stays_on_refl adjust_last_stays_on)
qed

lemma dispatch_nonpos:
  "t \<le> 0 \<Longrightarrow> dispatch plants t = (initial_plan plants, of_int t, False, 0)"
proof -
  assume "t \<le> 0"
  then have "(of_int t :: rat) \<le> 0" by simp
  then show ?thesis unfolding dispatch_def by (simp add: wind_pass_nonpos greedy_while_done)
qed

lemma optimize_production_nonpos:
  "t \<le> 0 \<Longrightarrow> optimize_production plants t = initial_plan plants"
proof -
  assume t: "t \<le> 0"
  have "final_adjustment plants t (initial_plan plants) = initial_plan plants"
    by (rule final_adjustment_idle) (simp add: initial_plan_nth length_initial_plan)
  with dispatch_nonpos [OF t] show ?thesis unfolding optimize_production_def by simp
qed

lemma plan_history_chain:
  "successively stays_on (plan_history plants t) \<and>
   last (plan_history plants t) = optimize_production plants t \<and>
   fst (wind_pass plants (initial_plan plants, of_int t)) \<in> set (plan_history plants t) \<and>
   fst (dispatch plants t) \<in> set (plan_history plants t)"
proof -
  let ?s0 = "(initial_plan plants, rat_of_int t)"
  let ?s1 = "wind_pass plants ?s0"
  let ?W = "wind_history (enumerate 0 plants) ?s0"
  let ?G = "greedy_while_history plants ?s1"
  let ?f = "optimize_production plants t"
  have z: "\<forall>i<length (fst ?s0). 0 \<le> i \<longrightarrow> snd (fst ?s0 ! i) = 0"
    by (simp add: length_initial_plan initial_plan_nth)
  from wind_history_chain [OF z, of plants]
  have A: "successively stays_on (initial_plan plants # ?W)"
    and A': "last (initial_plan plants # ?W) = fst ?s1"
    unfolding wind_pass_def by simp_all
  from greedy_while_history_chain [of ?s1 plants]
  have B: "successively stays_on (fst ?s1 # ?G)"
    and B': "last (fst ?s1 # ?G) = fst (dispatch plants t)"
    unfolding dispatch_def by simp_all
  have C: "stays_on (fst (dispatch plants t)) ?f"
  proof (cases "0 \<le> t")
    case True
    then show ?thesis by (rule final_adjustment_stays_on)
  next
    case False
    then have "t \<le> 0" by simp
    then show ?thesis
      by (simp add: dispatch_nonpos optimize_production_nonpos stays_on_refl)
  qed
  then have C': "successively stays_on (fst (dispatch plants t) # [?f])" by simp
  from chain_append [OF B B' C']
  have D: "successively stays_on (fst ?s1 # ?G @ [?f])"
    and D': "last (fst ?s1 # ?G @ [?f]) = ?f" by simp_all
  from chain_append [OF A A' D] D'
  have E: "successively stays_on (initial_plan plants # ?W @ ?G @ [?f])"
    and E': "last (initial_plan plants # ?W @ ?G @ [?f]) = ?f" by simp_all
  have h: "plan_history plants t = initial_plan plants # ?W @ ?G @ [?f]"
    unfolding plan_history_def Let_def by simp
  have "fst ?s1 \<in> set (initial_plan plants # ?W)"
    using A' last_in_set [of "initial_plan plants # ?W"] by simp
  then have m1: "fst ?s1 \<in> set (plan_history plants t)" unfolding h by auto
  have "fst (dispatch plants t) \<in> set (fst ?s1 # ?G)"
    using B' last_in_set [of "fst ?s1 # ?G"] by simp
  with m1 have m2: "fst (dispatch plants t) \<in> set (plan_history plants t)" unfolding h by auto
  from E E' m1 m2 show ?thesis unfolding h by simp
qed

section \<open>The claims\<close>






text \<open>
  Claim C9, the request of \<open>test_api.py\<close>: load 480, gas 13.4, kerosine 50.8, co2 20,
  wind 60 percent. The wind units have 90 and 21 MW available, the plan gives 90 to
  \<open>windpark1\<close>, 21 to \<open>windpark2\<close>, 369 to \<open>gasfiredbig1\<close> and 0 to the other three
  units, the total is exactly 480, and the plan is complete after one greedy pass: the
  difference to the load is 0, so the residual correction changes nothing.
\<close>

theorem scenario_480:
  "sorted_plants payload1 = Inr plants1 \<and>
   dispatch plants1 (load payload1) = (plan1, 0, False, 1) \<and>
   \<not> 1 / 10 < \<bar>of_int (load payload1) - total_production plan1\<bar> \<and>
   calculate_production_plan payload1 = Inr plan1 \<and>
   total_production plan1 = 480"
  by code_simp







text \<open>
  Claim C5 at a request where the code breaks it: load 100 and one wind unit with \<open>pmax\<close>
  150 at 60 percent wind, so 90 MW available. The wind pass allocates 90, the greedy loop
  stalls with 10 remaining, and the residual correction, which tests the new value against
  \<open>pmin\<close> and \<open>pmax\<close> only, raises the wind unit to 100.
\<close>

theorem wind_above_available:
  "sorted_plants payload_wind = Inr plants_wind \<and>
   map available_power plants_wind = [90] \<and>
   dispatch plants_wind (load payload_wind) = ([(''windpark1'', 90)], 10, True, 1) \<and>
   calculate_production_plan payload_wind = Inr [(''windpark1'', 100)]"
  by code_simp



text \<open>
  Claim C10: for a load of at most 0 the wind pass and the greedy loop change nothing, no
  pass is run, the residual correction finds no active unit, and the plan gives 0 to
  every unit. \<open>optimize_production\<close> has no error outcome.
\<close>

theorem nonpositive_load_all_zero:
  assumes "target_load \<le> 0"
  shows "dispatch plants target_load = (initial_plan plants, of_int target_load, False, 0) \<and>
         optimize_production plants target_load = map (\<lambda>plant. (name plant, 0)) plants"
proof -
  have r: "(of_int target_load :: rat) \<le> 0" using assms by simp
  have d: "dispatch plants target_load = (initial_plan plants, of_int target_load, False, 0)"
    unfolding dispatch_def using r by (simp add: wind_pass_nonpos greedy_while_done)
  have "final_adjustment plants target_load (initial_plan plants) = initial_plan plants"
    by (rule final_adjustment_idle) (simp add: initial_plan_nth length_initial_plan)
  with d show ?thesis unfolding optimize_production_def by (simp add: initial_plan_def)
qed

theorem nonpositive_load_all_zero_witness:
  "(-5 :: int) \<le> 0 \<and>
   optimize_production plants1 (-5) =
     [(''windpark1'', 0), (''windpark2'', 0), (''gasfiredbig1'', 0), (''gasfiredbig2'', 0),
      (''gasfiredsomewhatsmaller'', 0), (''tj1'', 0)]"
  using nonpositive_load_all_zero [of "-5" plants1] by (simp add: plants1_def)





end
